theory Spec2Isabelle
  imports Main "HOL-Library.Word"
begin

section \<open>The syntax highlighter of the code editor\<close>

text \<open>
  The only algorithmic code of \<^verbatim>\<open>src/main.cpp\<close> is the class \<^verbatim>\<open>SyntaxHighlighter\<close>:
  its constructor calls \<^verbatim>\<open>setupFormats\<close>, which fills the vector \<^verbatim>\<open>highlightingRules\<close>,
  and \<^verbatim>\<open>highlightBlock\<close> runs every rule over one block of text and calls
  \<^verbatim>\<open>setFormat(start, count, format)\<close> for every match. The specification calls the
  sequence of these calls the spans returned by \<open>classify\<close>, and calls the three
  formats the categories DataType, Loop and Keyword.

  The regular expressions are evaluated by the Qt class \<^verbatim>\<open>QRegularExpression\<close>, which is
  not part of the repository. Its behaviour is written out below for the pattern
  language the program uses (the assertion \<^verbatim>\<open>\b\<close> and literal letters), following the
  Qt and PCRE2 documentation.
\<close>

subsection \<open>Strings\<close>

text \<open>
  A \<^verbatim>\<open>QString\<close> is a sequence of UTF-16 code units; offsets and lengths count code
  units. The string literals of the source are ASCII, so each of their characters is one
  code unit with the value of the character.
\<close>

type_synonym QChar = "16 word"
type_synonym QString = "QChar list"

definition fromLatin1 :: "string \<Rightarrow> QString" where
  "fromLatin1 s = map (\<lambda>c. of_nat (of_char c)) s"

definition isHighSurrogate :: "QChar \<Rightarrow> bool" where
  "isHighSurrogate c = (0xD800 \<le> c \<and> c \<le> 0xDBFF)"

definition isLowSurrogate :: "QChar \<Rightarrow> bool" where
  "isLowSurrogate c = (0xDC00 \<le> c \<and> c \<le> 0xDFFF)"

text \<open>
  Well-formed UTF-16: every high surrogate is followed by a low surrogate, and no low
  surrogate stands alone.
\<close>

fun valid_utf16 :: "QString \<Rightarrow> bool" where
  "valid_utf16 [] = True"
| "valid_utf16 (c # cs) =
     (if isHighSurrogate c then
        (case cs of [] \<Rightarrow> False | d # ds \<Rightarrow> isLowSurrogate d \<and> valid_utf16 ds)
      else if isLowSurrogate c then False
      else valid_utf16 cs)"

subsection \<open>Character formats\<close>

text \<open>
  A \<^verbatim>\<open>QTextCharFormat\<close> with the two properties the source sets. A default-constructed
  format has neither.
\<close>

datatype GlobalColor = Qt_red | Qt_darkCyan | Qt_darkGreen

datatype FontWeight = QFont_Bold

record QTextCharFormat =
  foreground :: "GlobalColor option"
  fontWeight :: "FontWeight option"

definition emptyFormat :: QTextCharFormat where
  "emptyFormat = \<lparr>foreground = None, fontWeight = None\<rparr>"

definition keywordFormat :: QTextCharFormat where
  "keywordFormat = emptyFormat\<lparr>foreground := Some Qt_red, fontWeight := Some QFont_Bold\<rparr>"

definition loopFormat :: QTextCharFormat where
  "loopFormat = emptyFormat\<lparr>foreground := Some Qt_darkCyan\<rparr>"

definition dataTypeFormat :: QTextCharFormat where
  "dataTypeFormat = emptyFormat\<lparr>foreground := Some Qt_darkGreen\<rparr>"

subsection \<open>Regular expressions\<close>

text \<open>
  The patterns of the program are \<^verbatim>\<open>"\\b" + word + "\\b"\<close>. The pattern language
  modelled here has the word-boundary assertion \<^verbatim>\<open>\b\<close> and literal letters, digits and
  underscores (characters that are never special in a pattern). A pattern string outside
  this fragment compiles to \<open>None\<close>; the program builds none.

  A word character is what \<^verbatim>\<open>\w\<close> matches. The source passes no pattern option
  (in particular not \<^verbatim>\<open>UseUnicodePropertiesOption\<close>), so these are the ASCII letters,
  the digits and the underscore.
\<close>

datatype atom = WordBoundary | Literal QChar

type_synonym QRegularExpression = "atom list option"

definition is_word :: "QChar \<Rightarrow> bool" where
  "is_word c = ((0x30 \<le> c \<and> c \<le> 0x39) \<or> (0x41 \<le> c \<and> c \<le> 0x5A) \<or> c = 0x5F
     \<or> (0x61 \<le> c \<and> c \<le> 0x7A))"

fun compilePattern :: "QString \<Rightarrow> atom list option" where
  "compilePattern [] = Some []"
| "compilePattern (c # cs) =
     (if c = 0x5C then
        (case cs of
           [] \<Rightarrow> None
         | d # ds \<Rightarrow> if d = 0x62 then map_option ((#) WordBoundary) (compilePattern ds) else None)
      else if is_word c then map_option ((#) (Literal c)) (compilePattern cs)
      else None)"

definition QRegularExpression :: "QString \<Rightarrow> QRegularExpression" where
  "QRegularExpression pattern_string = compilePattern pattern_string"

text \<open>
  \<^verbatim>\<open>\b\<close> holds at a position when exactly one of the character before it and the
  character at it is a word character; outside the subject there is no word character.
\<close>

definition word_before :: "QString \<Rightarrow> nat \<Rightarrow> bool" where
  "word_before s p = (0 < p \<and> p \<le> length s \<and> is_word (s ! (p - 1)))"

definition word_at :: "QString \<Rightarrow> nat \<Rightarrow> bool" where
  "word_at s p = (p < length s \<and> is_word (s ! p))"

definition is_boundary :: "QString \<Rightarrow> nat \<Rightarrow> bool" where
  "is_boundary s p = (word_before s p \<noteq> word_at s p)"

text \<open>
  Matching a compiled pattern at a fixed position: the end of the match, if there is
  one. A sequence of assertions and literals has at most one match at a position.
\<close>

fun match_at :: "atom list \<Rightarrow> QString \<Rightarrow> nat \<Rightarrow> nat option" where
  "match_at [] s p = Some p"
| "match_at (WordBoundary # as) s p = (if is_boundary s p then match_at as s p else None)"
| "match_at (Literal c # as) s p =
     (if p < length s \<and> s ! p = c then match_at as s (Suc p) else None)"

text \<open>
  Patterns are compiled in UTF mode, so a match starts at a character boundary, never
  between the two code units of a surrogate pair.
\<close>

definition mid_pair :: "QString \<Rightarrow> nat \<Rightarrow> bool" where
  "mid_pair s p = (0 < p \<and> p < length s \<and> isHighSurrogate (s ! (p - 1)) \<and> isLowSurrogate (s ! p))"

text \<open>The search for the leftmost match among the candidate start positions.\<close>

fun search :: "atom list \<Rightarrow> QString \<Rightarrow> nat list \<Rightarrow> (nat \<times> nat) option" where
  "search as s [] = None"
| "search as s (p # ps) =
     (if mid_pair s p then search as s ps
      else (case match_at as s p of
              Some e \<Rightarrow> Some (p, e)
            | None \<Rightarrow> search as s ps))"

text \<open>
  A \<^verbatim>\<open>QRegularExpressionMatch\<close>: invalid (the pattern is invalid or the subject is not
  well-formed UTF-16), valid without a match, or a match with the offsets of its start
  and its end.
\<close>

datatype QRegularExpressionMatch = InvalidMatch | NoMatch | Match nat nat

fun capturedStart :: "QRegularExpressionMatch \<Rightarrow> int" where
  "capturedStart (Match st en) = int st"
| "capturedStart _ = - 1"

fun capturedLength :: "QRegularExpressionMatch \<Rightarrow> int" where
  "capturedLength (Match st en) = int en - int st"
| "capturedLength _ = 0"

definition doMatch :: "QRegularExpression \<Rightarrow> QString \<Rightarrow> nat \<Rightarrow> QRegularExpressionMatch" where
  "doMatch re s offset =
     (case re of
        None \<Rightarrow> InvalidMatch
      | Some as \<Rightarrow>
          (case search as s [offset ..< Suc (length s)] of
             None \<Rightarrow> NoMatch
           | Some (st, en) \<Rightarrow> Match st en))"

text \<open>
  \<^verbatim>\<open>QRegularExpression::match\<close> checks the subject for well-formed UTF-16 (the source
  passes no \<^verbatim>\<open>DontCheckSubjectStringMatchOption\<close>); on a malformed subject the match
  object is invalid.
\<close>

definition QRegularExpression_match :: "QRegularExpression \<Rightarrow> QString \<Rightarrow> QRegularExpressionMatch" where
  "QRegularExpression_match re s = (if valid_utf16 s then doMatch re s 0 else InvalidMatch)"

text \<open>
  The iterator of \<^verbatim>\<open>globalMatch\<close> holds the next match. After a non-empty match the
  search goes on at its end; after an empty match it goes on one character later.
\<close>

record QRegularExpressionMatchIterator =
  regularExpression :: QRegularExpression
  subject :: QString
  next_match :: QRegularExpressionMatch

definition globalMatch :: "QRegularExpression \<Rightarrow> QString \<Rightarrow> QRegularExpressionMatchIterator" where
  "globalMatch re s =
     \<lparr>regularExpression = re, subject = s, next_match = QRegularExpression_match re s\<rparr>"

definition hasNext :: "QRegularExpressionMatchIterator \<Rightarrow> bool" where
  "hasNext it = (case next_match it of Match st en \<Rightarrow> True | _ \<Rightarrow> False)"

definition advance :: "QString \<Rightarrow> nat \<Rightarrow> nat \<Rightarrow> nat" where
  "advance s st en =
     (if st = en then
        (if Suc en < length s \<and> isLowSurrogate (s ! Suc en) then Suc (Suc en) else Suc en)
      else en)"

definition nextMatch :: "QRegularExpression \<Rightarrow> QString \<Rightarrow> nat \<Rightarrow> nat \<Rightarrow> QRegularExpressionMatch" where
  "nextMatch re s st en = doMatch re s (advance s st en)"

definition next_it ::
  "QRegularExpressionMatchIterator \<Rightarrow> QRegularExpressionMatch \<times> QRegularExpressionMatchIterator" where
  "next_it it =
     (case next_match it of
        Match st en \<Rightarrow>
          (Match st en, it\<lparr>next_match := nextMatch (regularExpression it) (subject it) st en\<rparr>)
      | m \<Rightarrow> (m, it))"

subsection \<open>The highlighter\<close>

record HighlightingRule =
  pattern :: QRegularExpression
  format :: QTextCharFormat

text \<open>
  One call \<^verbatim>\<open>setFormat(start, count, format)\<close>: a span of the specification, its
  category being the format.
\<close>

datatype Span = Span int int QTextCharFormat

fun span_start :: "Span \<Rightarrow> int" where
  "span_start (Span st n f) = st"

fun span_length :: "Span \<Rightarrow> int" where
  "span_length (Span st n f) = n"

fun span_category :: "Span \<Rightarrow> QTextCharFormat" where
  "span_category (Span st n f) = f"

text \<open>
  The highlighter object: the member \<^verbatim>\<open>highlightingRules\<close>, and for the base class
  \<^verbatim>\<open>QSyntaxHighlighter\<close> the calls of \<^verbatim>\<open>setFormat\<close> made on the object so far, in
  their order. Every statement of a member function gets the object and hands it on, so
  a write to a member, or a read of what earlier calls left, would show.
\<close>

record SyntaxHighlighter =
  highlightingRules :: "HighlightingRule list"
  formatCalls :: "Span list"

definition setFormat ::
  "int \<Rightarrow> int \<Rightarrow> QTextCharFormat \<Rightarrow> SyntaxHighlighter \<Rightarrow> SyntaxHighlighter" where
  "setFormat st n f this = this\<lparr>formatCalls := formatCalls this @ [Span st n f]\<rparr>"

text \<open>
  \<^verbatim>\<open>setupFormats\<close>: three loops, each appending one rule per word of its list.
\<close>

definition dataTypes :: "QString list" where
  "dataTypes = map fromLatin1 [''int'', ''char'', ''float'', ''double'', ''void'']"

definition loopKeywords :: "QString list" where
  "loopKeywords = map fromLatin1 [''for'', ''while'', ''do'', ''break'', ''continue'']"

definition otherKeywords :: "QString list" where
  "otherKeywords = map fromLatin1 [''if'', ''else'', ''return'', ''switch'', ''case'', ''default'']"

definition backslash_b :: QString where
  "backslash_b = fromLatin1 [CHR 0x5C, CHR ''b'']"

definition append_rules ::
  "QTextCharFormat \<Rightarrow> QString list \<Rightarrow> HighlightingRule list \<Rightarrow> HighlightingRule list" where
  "append_rules fmt ws rules =
     foldl (\<lambda>rs w. rs @ [\<lparr>pattern = QRegularExpression (backslash_b @ w @ backslash_b),
                           format = fmt\<rparr>]) rules ws"

definition setupFormats :: "SyntaxHighlighter \<Rightarrow> SyntaxHighlighter" where
  "setupFormats this =
     (let rules1 = append_rules dataTypeFormat dataTypes (highlightingRules this);
          rules2 = append_rules loopFormat loopKeywords rules1;
          rules3 = append_rules keywordFormat otherKeywords rules2
      in this\<lparr>highlightingRules := rules3\<rparr>)"

definition new_SyntaxHighlighter :: SyntaxHighlighter where
  "new_SyntaxHighlighter = setupFormats \<lparr>highlightingRules = [], formatCalls = []\<rparr>"

text \<open>
  \<^verbatim>\<open>highlightBlock\<close>: the inner loop runs while the iterator has a next match, the outer
  loop runs over the rules in the order of the vector.
\<close>

function while_hasNext ::
  "QTextCharFormat \<Rightarrow> QRegularExpressionMatchIterator \<Rightarrow> SyntaxHighlighter \<Rightarrow> SyntaxHighlighter" where
  "while_hasNext fmt it this =
     (if hasNext it then
        (case next_it it of
           (m, it') \<Rightarrow> while_hasNext fmt it' (setFormat (capturedStart m) (capturedLength m) fmt this))
      else this)"
  by pat_completeness auto

text \<open>
  The loop terminates because every search starts behind the start of the match before
  it: a match lies in the subject, at or behind the offset of its search.
\<close>

lemma match_at_bounds:
  "match_at as s p = Some e \<Longrightarrow> p \<le> e \<and> (p \<le> length s \<longrightarrow> e \<le> length s)"
  by (induction as s p rule: match_at.induct) (auto split: if_splits)

lemma search_Some:
  "search as s ps = Some (st, en) \<Longrightarrow>
     st \<in> set ps \<and> match_at as s st = Some en \<and> \<not> mid_pair s st"
  by (induction ps) (auto split: if_splits option.splits)

lemma doMatch_Match:
  assumes "doMatch re s off = Match st en"
  shows "off \<le> st \<and> st \<le> en \<and> en \<le> length s"
proof -
  from assms obtain as where se: "search as s [off ..< Suc (length s)] = Some (st, en)"
    by (auto simp: doMatch_def split: option.splits)
  from search_Some [OF se] have "st \<in> set [off ..< Suc (length s)]"
    and m: "match_at as s st = Some en"
    by simp_all
  then have "off \<le> st" "st \<le> length s" by auto
  with match_at_bounds [OF m] show ?thesis by simp
qed

lemma advance_gt: "st \<le> en \<Longrightarrow> st < advance s st en"
  by (auto simp: advance_def)

lemma while_hasNext_total: "All while_hasNext_dom"
proof (relation "measure (\<lambda>(fmt, it, calls).
    case next_match it of
      Match st en \<Rightarrow> Suc (Suc (Suc (length (subject it))) - advance (subject it) st en)
    | _ \<Rightarrow> 0)", goal_cases)
  case 1
  show ?case by simp
next
  case (2 fmt it calls m it')
  from 2(1) obtain st en where nm: "next_match it = Match st en"
    by (auto simp: hasNext_def split: QRegularExpressionMatch.splits)
  with 2(2) have it': "it' = it\<lparr>next_match := nextMatch (regularExpression it) (subject it) st en\<rparr>"
    by (simp add: next_it_def)
  show ?case
  proof (cases "nextMatch (regularExpression it) (subject it) st en")
    case (Match st' en')
    from doMatch_Match [OF Match [unfolded nextMatch_def]]
    have b: "advance (subject it) st en \<le> st'" "st' \<le> en'" "en' \<le> length (subject it)"
      by simp_all
    from advance_gt [OF b(2)] have "st' < advance (subject it) st' en'" .
    with b show ?thesis using nm it' Match by simp
  qed (simp_all add: nm it')
qed

termination while_hasNext
  by (rule while_hasNext_total)

declare while_hasNext.simps [simp del]

text \<open>
  The member function gets the object and the text of the block and gives the object
  back as its statements left it. The range-based \<^verbatim>\<open>for\<close> runs over the rules the object
  has when the loop starts.
\<close>

definition highlightBlock :: "SyntaxHighlighter \<Rightarrow> QString \<Rightarrow> SyntaxHighlighter" where
  "highlightBlock this text =
     foldl (\<lambda>obj rule. while_hasNext (format rule) (globalMatch (pattern rule) text) obj)
       this (highlightingRules this)"

text \<open>
  \<open>classify\<close> of the specification: the calls of \<^verbatim>\<open>setFormat\<close> that \<^verbatim>\<open>highlightBlock\<close>
  makes on the highlighter that the constructor built.
\<close>

definition classify :: "QString \<Rightarrow> Span list" where
  "classify text = formatCalls (highlightBlock new_SyntaxHighlighter text)"

text \<open>
  The host calls \<^verbatim>\<open>highlightBlock\<close> once for every block that changed, always on the
  same highlighter object: a run of calls hands the object from one call to the next.
\<close>

definition highlightBlocks :: "SyntaxHighlighter \<Rightarrow> QString list \<Rightarrow> SyntaxHighlighter" where
  "highlightBlocks this texts = foldl highlightBlock this texts"


subsection \<open>The matches an iterator yields\<close>

text \<open>
  For the proofs: the list of the matches that the iterator of \<^verbatim>\<open>globalMatch\<close> yields, as
  one pass over the positions of the subject, and the spans that the loops emit for a
  list of rules.
\<close>

fun iterator_matches :: "atom list \<Rightarrow> QString \<Rightarrow> nat \<Rightarrow> nat list \<Rightarrow> (nat \<times> nat) list" where
  "iterator_matches as s free [] = []"
| "iterator_matches as s free (p # ps) =
     (if free \<le> p \<and> \<not> mid_pair s p then
        (case match_at as s p of
           Some e \<Rightarrow> (p, e) # iterator_matches as s (max e (Suc p)) ps
         | None \<Rightarrow> iterator_matches as s free ps)
      else iterator_matches as s free ps)"

definition global_matches :: "QRegularExpression \<Rightarrow> QString \<Rightarrow> (nat \<times> nat) list" where
  "global_matches re s =
     (case re of
        None \<Rightarrow> []
      | Some as \<Rightarrow> if valid_utf16 s then iterator_matches as s 0 [0 ..< Suc (length s)] else [])"

definition span_of :: "QTextCharFormat \<Rightarrow> nat \<times> nat \<Rightarrow> Span" where
  "span_of f m = Span (int (fst m)) (int (snd m) - int (fst m)) f"

definition emitted_spans :: "HighlightingRule list \<Rightarrow> QString \<Rightarrow> Span list" where
  "emitted_spans rules text =
     concat (map (\<lambda>rule. map (span_of (format rule)) (global_matches (pattern rule) text)) rules)"

subsection \<open>The reference computation of the specification\<close>

text \<open>
  The specification describes \<open>classify\<close> as: for each rule in the order of the table,
  all non-overlapping matches of its pattern in the text, found from left to right, each
  giving one span with the offset and the length of the match and the category of the
  rule. Written as one pass over the positions of the text: a position where the pattern
  matches gives a match unless an earlier match covers it; after a match the next free
  position is its end (one position further when the match was empty).
\<close>

fun nonoverlapping :: "atom list \<Rightarrow> QString \<Rightarrow> nat \<Rightarrow> nat list \<Rightarrow> (nat \<times> nat) list" where
  "nonoverlapping as s free [] = []"
| "nonoverlapping as s free (p # ps) =
     (if free \<le> p then
        (case match_at as s p of
           Some e \<Rightarrow> (p, e) # nonoverlapping as s (max e (Suc p)) ps
         | None \<Rightarrow> nonoverlapping as s free ps)
      else nonoverlapping as s free ps)"

definition all_matches :: "QRegularExpression \<Rightarrow> QString \<Rightarrow> (nat \<times> nat) list" where
  "all_matches re s =
     (case re of
        None \<Rightarrow> []
      | Some as \<Rightarrow> nonoverlapping as s 0 [0 ..< Suc (length s)])"

definition classify_ref :: "HighlightingRule list \<Rightarrow> QString \<Rightarrow> Span list" where
  "classify_ref rules text =
     concat (map (\<lambda>rule. map (span_of (format rule)) (all_matches (pattern rule) text)) rules)"

subsection \<open>Whole words and the keyword table\<close>

text \<open>
  The compiled form of \<^verbatim>\<open>"\\b" + w + "\\b"\<close> for a word \<open>w\<close> of letters.
\<close>

definition whole_word :: "QString \<Rightarrow> atom list" where
  "whole_word w = WordBoundary # map Literal w @ [WordBoundary]"

text \<open>
  A whole-word occurrence of \<open>w\<close> in \<open>s\<close> at offset \<open>p\<close>: the characters of \<open>w\<close> stand
  there, no word character stands directly before them and none directly behind them.
\<close>

definition whole_word_at :: "QString \<Rightarrow> QString \<Rightarrow> nat \<Rightarrow> bool" where
  "whole_word_at w s p =
     (p + length w \<le> length s \<and> take (length w) (drop p s) = w
      \<and> \<not> word_before s p \<and> \<not> word_at s (p + length w))"

text \<open>The configured keywords with their formats, in the order of \<^verbatim>\<open>setupFormats\<close>.\<close>

definition keywordTable :: "(QString \<times> QTextCharFormat) list" where
  "keywordTable =
     map (\<lambda>w. (w, dataTypeFormat)) dataTypes @ map (\<lambda>w. (w, loopFormat)) loopKeywords
     @ map (\<lambda>w. (w, keywordFormat)) otherKeywords"

definition wordlike :: "QString \<Rightarrow> bool" where
  "wordlike w = (w \<noteq> [] \<and> list_all is_word w)"

definition word_rule :: "QString \<times> QTextCharFormat \<Rightarrow> HighlightingRule" where
  "word_rule k = \<lparr>pattern = Some (whole_word (fst k)), format = snd k\<rparr>"

text \<open>Two spans are disjoint when one ends at or before the start of the other.\<close>

definition span_disjoint :: "Span \<Rightarrow> Span \<Rightarrow> bool" where
  "span_disjoint a b =
     (span_start a + span_length a \<le> span_start b \<or> span_start b + span_length b \<le> span_start a)"

section \<open>Properties\<close>

subsection \<open>The loops of the source emit the matches of the iterators\<close>

lemma iterator_matches_skip:
  "\<forall>p\<in>set xs. free \<le> p \<longrightarrow> mid_pair s p \<or> match_at as s p = None \<Longrightarrow>
     iterator_matches as s free (xs @ ys) = iterator_matches as s free ys"
  by (induction xs) (auto split: option.splits)

lemma iterator_matches_free:
  "free \<le> free' \<Longrightarrow>
   \<forall>p\<in>set ps. free \<le> p \<and> p < free' \<longrightarrow> mid_pair s p \<or> match_at as s p = None \<Longrightarrow>
     iterator_matches as s free ps = iterator_matches as s free' ps"
proof (induction ps)
  case Nil
  then show ?case by simp
next
  case (Cons p ps)
  then show ?case
    by (cases "free' \<le> p") (auto split: option.splits)
qed

lemma iterator_matches_search:
  "sorted_wrt (<) ps \<Longrightarrow> \<forall>p\<in>set ps. free \<le> p \<Longrightarrow>
     iterator_matches as s free ps =
       (case search as s ps of
          None \<Rightarrow> []
        | Some (st, en) \<Rightarrow> (st, en) # iterator_matches as s (max en (Suc st)) ps)"
proof (induction ps)
  case Nil
  then show ?case by simp
next
  case (Cons p ps)
  show ?case
  proof (cases "\<not> mid_pair s p \<and> match_at as s p \<noteq> None")
    case True
    then obtain e where e: "match_at as s p = Some e" by auto
    have "iterator_matches as s (max e (Suc p)) ([p] @ ps) = iterator_matches as s (max e (Suc p)) ps"
      by (rule iterator_matches_skip) simp
    with True e Cons.prems show ?thesis by simp
  next
    case False
    from Cons.prems have IH: "iterator_matches as s free ps =
       (case search as s ps of
          None \<Rightarrow> []
        | Some (st, en) \<Rightarrow> (st, en) # iterator_matches as s (max en (Suc st)) ps)"
      by (intro Cons.IH) simp_all
    show ?thesis
    proof (cases "search as s ps")
      case None
      with False IH show ?thesis by (auto split: option.splits)
    next
      case (Some m)
      obtain st en where m: "m = (st, en)" by (cases m)
      from search_Some [OF Some [unfolded m]] have "st \<in> set ps" by simp
      with Cons.prems have "p < st" by auto
      have "iterator_matches as s (max en (Suc st)) ([p] @ ps) = iterator_matches as s (max en (Suc st)) ps"
        by (rule iterator_matches_skip) (use \<open>p < st\<close> in simp)
      with False IH Some m show ?thesis by (auto split: option.splits)
    qed
  qed
qed

lemma upt_join: "i \<le> j \<Longrightarrow> j \<le> k \<Longrightarrow> [i ..< j] @ [j ..< k] = [i ..< k]"
  by (metis le_Suc_ex upt_add_eq_append)

lemma iterator_matches_upt:
  "iterator_matches as s off [0 ..< m] = iterator_matches as s off [off ..< m]"
proof (cases "off \<le> m")
  case True
  then have "[0 ..< m] = [0 ..< off] @ [off ..< m]"
    by (simp add: upt_join)
  moreover have "iterator_matches as s off ([0 ..< off] @ [off ..< m]) = iterator_matches as s off [off ..< m]"
    by (rule iterator_matches_skip) simp
  ultimately show ?thesis by simp
next
  case False
  have "iterator_matches as s off ([0 ..< m] @ []) = iterator_matches as s off []"
    by (rule iterator_matches_skip) (use False in simp)
  with False show ?thesis by simp
qed

lemma high_not_low: "isHighSurrogate c \<Longrightarrow> \<not> isLowSurrogate c"
  unfolding isHighSurrogate_def isLowSurrogate_def word_le_nat_alt by simp

lemma is_word_not_low: "is_word c \<Longrightarrow> \<not> isLowSurrogate c"
  unfolding is_word_def isLowSurrogate_def word_le_nat_alt by auto

lemma is_word_not_backslash: "is_word c \<Longrightarrow> c \<noteq> 0x5C"
  unfolding is_word_def by auto

lemma valid_utf16_low:
  "valid_utf16 s \<Longrightarrow> q < length s \<Longrightarrow> isLowSurrogate (s ! q) \<Longrightarrow> mid_pair s q"
proof (induction s arbitrary: q rule: valid_utf16.induct)
  case 1
  then show ?case by simp
next
  case (2 c cs)
  show ?case
  proof (cases "isHighSurrogate c")
    case True
    with "2.prems"(1) obtain d ds where cs: "cs = d # ds" and d: "isLowSurrogate d" and v: "valid_utf16 ds"
      by (auto split: list.splits)
    consider "q = 0" | "q = 1" | q' where "q = Suc (Suc q')"
      by (metis One_nat_def not0_implies_Suc)
    then show ?thesis
    proof cases
      case 1
      with "2.prems"(3) True high_not_low show ?thesis by auto
    next
      case 2
      with True d cs show ?thesis by (simp add: mid_pair_def)
    next
      case 3
      with "2.prems" cs have "q' < length ds" "isLowSurrogate (ds ! q')" by simp_all
      from "2.IH"(1) [OF True cs v this] have "mid_pair ds q'" .
      with 3 cs show ?thesis by (simp add: mid_pair_def)
    qed
  next
    case False
    with "2.prems"(1) have nl: "\<not> isLowSurrogate c" and v: "valid_utf16 cs"
      by (auto split: if_splits)
    show ?thesis
    proof (cases q)
      case 0
      with "2.prems"(3) nl show ?thesis by simp
    next
      case (Suc q')
      with "2.prems" have "q' < length cs" "isLowSurrogate (cs ! q')" by simp_all
      from "2.IH"(2) [OF False nl v this] have "mid_pair cs q'" .
      with Suc show ?thesis by (simp add: mid_pair_def)
    qed
  qed
qed

lemma iterator_matches_advance:
  assumes "valid_utf16 s" "st \<le> en"
  shows "iterator_matches as s (max en (Suc st)) ps = iterator_matches as s (advance s st en) ps"
proof (rule iterator_matches_free)
  show "max en (Suc st) \<le> advance s st en"
    using assms(2) by (auto simp: advance_def)
  show "\<forall>p\<in>set ps. max en (Suc st) \<le> p \<and> p < advance s st en \<longrightarrow> mid_pair s p \<or> match_at as s p = None"
  proof (intro ballI impI)
    fix p
    assume "p \<in> set ps" and b: "max en (Suc st) \<le> p \<and> p < advance s st en"
    then have "p = Suc en" "Suc en < length s" "isLowSurrogate (s ! Suc en)"
      by (auto simp: advance_def split: if_splits)
    with valid_utf16_low [OF assms(1)] show "mid_pair s p \<or> match_at as s p = None"
      by simp
  qed
qed

lemma iterator_matches_unfold:
  assumes "valid_utf16 s"
  shows "iterator_matches as s off [0 ..< Suc (length s)] =
    (case doMatch (Some as) s off of
       Match st en \<Rightarrow> (st, en) # iterator_matches as s (advance s st en) [0 ..< Suc (length s)]
     | _ \<Rightarrow> [])"
proof -
  let ?ps = "[off ..< Suc (length s)]"
  have u: "iterator_matches as s off ?ps =
       (case search as s ?ps of
          None \<Rightarrow> []
        | Some (st, en) \<Rightarrow> (st, en) # iterator_matches as s (max en (Suc st)) ?ps)"
    by (rule iterator_matches_search) (simp_all del: upt_Suc)
  show ?thesis
  proof (cases "search as s ?ps")
    case None
    with u show ?thesis by (simp add: doMatch_def iterator_matches_upt [of as s off] del: upt_Suc)
  next
    case (Some m)
    obtain st en where m: "m = (st, en)" by (cases m)
    from Some m have dm: "doMatch (Some as) s off = Match st en" by (simp add: doMatch_def)
    from doMatch_Match [OF dm] have le: "off \<le> st" "st \<le> en" by simp_all
    have "iterator_matches as s (max en (Suc st)) ?ps = iterator_matches as s (max en (Suc st)) ([0 ..< off] @ ?ps)"
      by (rule iterator_matches_skip [symmetric]) (use le in auto)
    also have "[0 ..< off] @ ?ps = [0 ..< Suc (length s)]"
      using doMatch_Match [OF dm] by (intro upt_join) simp_all
    finally have "iterator_matches as s (max en (Suc st)) ?ps = iterator_matches as s (advance s st en) [0 ..< Suc (length s)]"
      by (simp add: iterator_matches_advance [OF assms le(2)] del: upt_Suc)
    with u Some m dm show ?thesis by (simp add: iterator_matches_upt [of as s off] del: upt_Suc)
  qed
qed

lemma while_hasNext_matches:
  "regularExpression it = Some as \<Longrightarrow> subject it = s \<Longrightarrow> valid_utf16 s \<Longrightarrow>
   next_match it = doMatch (Some as) s off \<Longrightarrow>
     while_hasNext fmt it this =
       this\<lparr>formatCalls := formatCalls this
          @ map (span_of fmt) (iterator_matches as s off [0 ..< Suc (length s)])\<rparr>"
proof (induction fmt it this arbitrary: off rule: while_hasNext.induct)
  case (1 fmt it this)
  show ?case
  proof (cases "doMatch (Some as) s off")
    case (Match st en)
    let ?it' = "it\<lparr>next_match := nextMatch (regularExpression it) (subject it) st en\<rparr>"
    have hn: "hasNext it" and ni: "next_it it = (Match st en, ?it')"
      using Match "1.prems" by (simp_all add: hasNext_def next_it_def)
    let ?this' = "setFormat (capturedStart (Match st en)) (capturedLength (Match st en)) fmt this"
    have "while_hasNext fmt ?it' ?this' =
        ?this'\<lparr>formatCalls := formatCalls ?this'
          @ map (span_of fmt) (iterator_matches as s (advance s st en) [0 ..< Suc (length s)])\<rparr>"
      using "1.prems" by (intro "1.IH" [OF hn ni [symmetric]]) (simp_all add: nextMatch_def del: upt_Suc)
    then show ?thesis
      using hn ni Match
      by (subst while_hasNext.simps)
         (simp add: iterator_matches_unfold [OF "1.prems"(3), of as off] setFormat_def span_of_def del: upt_Suc)
  next
    case InvalidMatch
    then show ?thesis
      using "1.prems"
      by (subst while_hasNext.simps)
         (simp add: iterator_matches_unfold [OF "1.prems"(3), of as off] hasNext_def del: upt_Suc)
  next
    case NoMatch
    then show ?thesis
      using "1.prems"
      by (subst while_hasNext.simps)
         (simp add: iterator_matches_unfold [OF "1.prems"(3), of as off] hasNext_def del: upt_Suc)
  qed
qed

lemma while_hasNext_done: "\<not> hasNext it \<Longrightarrow> while_hasNext fmt it this = this"
  by (subst while_hasNext.simps) simp

lemma while_hasNext_globalMatch:
  "while_hasNext fmt (globalMatch re text) this =
     this\<lparr>formatCalls := formatCalls this @ map (span_of fmt) (global_matches re text)\<rparr>"
proof (cases re)
  case None
  then have "\<not> hasNext (globalMatch re text)"
    by (simp add: hasNext_def globalMatch_def QRegularExpression_match_def doMatch_def)
  with None show ?thesis by (simp add: while_hasNext_done global_matches_def)
next
  case (Some as)
  show ?thesis
  proof (cases "valid_utf16 text")
    case True
    have "while_hasNext fmt (globalMatch re text) this =
       this\<lparr>formatCalls := formatCalls this
         @ map (span_of fmt) (iterator_matches as text 0 [0 ..< Suc (length text)])\<rparr>"
      by (rule while_hasNext_matches [OF _ _ True])
         (simp_all add: globalMatch_def Some QRegularExpression_match_def True)
    with Some True show ?thesis by (simp add: global_matches_def del: upt_Suc)
  next
    case False
    then have "\<not> hasNext (globalMatch re text)"
      by (simp add: hasNext_def globalMatch_def QRegularExpression_match_def)
    with Some False show ?thesis by (simp add: while_hasNext_done global_matches_def)
  qed
qed

lemma foldl_append_concat:
  "foldl (\<lambda>acc x. acc @ f x) acc xs = acc @ concat (map f xs)"
  by (induction xs arbitrary: acc) simp_all

lemma foldl_formatCalls:
  "foldl (\<lambda>obj x. obj\<lparr>formatCalls := formatCalls obj @ f x\<rparr>) this xs =
     this\<lparr>formatCalls := formatCalls this @ concat (map f xs)\<rparr>"
  by (induction xs arbitrary: this) simp_all

text \<open>
  A call appends its spans to the calls made before and changes nothing else; the spans
  depend on the rules and the text only.
\<close>

lemma highlightBlock_ref:
  "highlightBlock this text =
     this\<lparr>formatCalls := formatCalls this @ emitted_spans (highlightingRules this) text\<rparr>"
  by (simp add: highlightBlock_def emitted_spans_def while_hasNext_globalMatch foldl_formatCalls)

subsection \<open>Whole-word patterns\<close>

lemma compile_literals:
  "list_all is_word w \<Longrightarrow>
     compilePattern (w @ rest) = map_option ((@) (map Literal w)) (compilePattern rest)"
proof (induction w)
  case Nil
  show ?case by (simp add: option.map_ident)
next
  case (Cons c w)
  then show ?case
    by (simp add: is_word_not_backslash option.map_comp comp_def)
qed

lemma backslash_b_eq: "backslash_b = [0x5C, 0x62]"
  by (simp add: backslash_b_def fromLatin1_def)

lemma QRegularExpression_word:
  "list_all is_word w \<Longrightarrow> QRegularExpression (backslash_b @ w @ backslash_b) = Some (whole_word w)"
  by (simp add: QRegularExpression_def backslash_b_eq compile_literals whole_word_def)

lemma match_literals:
  "match_at (map Literal w @ as) s p =
     (if take (length w) (drop p s) = w then match_at as s (p + length w) else None)"
proof (induction w arbitrary: p)
  case Nil
  show ?case by simp
next
  case (Cons c w)
  show ?case
  proof (cases "p < length s")
    case True
    then have "drop p s = s ! p # drop (Suc p) s"
      by (simp add: Cons_nth_drop_Suc)
    with True Cons [of "Suc p"] show ?thesis by auto
  next
    case False
    then show ?thesis by simp
  qed
qed

lemma occurrence_chars:
  assumes "p + length w \<le> length s" "take (length w) (drop p s) = w" "p \<le> i" "i < p + length w"
  shows "s ! i = w ! (i - p)"
proof -
  have "take (length w) (drop p s) ! (i - p) = s ! i"
    using assms(1,3,4) by simp
  with assms(2) show ?thesis by metis
qed

lemma match_whole_word:
  assumes "wordlike w"
  shows "match_at (whole_word w) s p = (if whole_word_at w s p then Some (p + length w) else None)"
proof (cases "take (length w) (drop p s) = w")
  case True
  from assms have n: "0 < length w" and ws: "\<forall>i < length w. is_word (w ! i)"
    by (simp_all add: wordlike_def list_all_length)
  have "length (take (length w) (drop p s)) = min (length (drop p s)) (length w)"
    by (rule length_take)
  with True have "min (length (drop p s)) (length w) = length w" by simp
  then have "length w \<le> length s - p" by simp
  with n have le: "p + length w \<le> length s" by arith
  with n have lt: "p < length s" by arith
  from n have "p < p + length w" by arith
  from occurrence_chars [OF le True le_refl this] have "s ! p = w ! 0" by simp
  with ws n lt have a: "word_at s p" by (simp add: word_at_def)
  from n have "p \<le> p + length w - 1" "p + length w - 1 < p + length w" by arith+
  from occurrence_chars [OF le True this] n have "s ! (p + length w - 1) = w ! (length w - 1)"
    by simp
  moreover from n have "is_word (w ! (length w - 1))" by (intro ws [rule_format]) arith
  moreover from n have "0 < p + length w" by arith
  ultimately have b: "word_before s (p + length w)" using le by (simp add: word_before_def)
  from True a b le show ?thesis
    by (simp add: whole_word_def match_literals whole_word_at_def is_boundary_def)
next
  case False
  then show ?thesis
    by (auto simp: whole_word_def match_literals whole_word_at_def)
qed

lemma foldl_append_rules:
  "append_rules fmt ws rules =
     rules @ map (\<lambda>w. \<lparr>pattern = QRegularExpression (backslash_b @ w @ backslash_b), format = fmt\<rparr>) ws"
proof -
  have "foldl (\<lambda>rs w. rs @ [\<lparr>pattern = QRegularExpression (backslash_b @ w @ backslash_b), format = fmt\<rparr>]) rules ws
    = rules @ concat (map (\<lambda>w. [\<lparr>pattern = QRegularExpression (backslash_b @ w @ backslash_b), format = fmt\<rparr>]) ws)"
    by (rule foldl_append_concat)
  also have "concat (map (\<lambda>w. [\<lparr>pattern = QRegularExpression (backslash_b @ w @ backslash_b), format = fmt\<rparr>]) ws)
    = map (\<lambda>w. \<lparr>pattern = QRegularExpression (backslash_b @ w @ backslash_b), format = fmt\<rparr>) ws"
    by (induction ws) simp_all
  finally show ?thesis by (simp add: append_rules_def)
qed

lemma dataTypes_eq:
  "dataTypes = [[0x69, 0x6E, 0x74], [0x63, 0x68, 0x61, 0x72], [0x66, 0x6C, 0x6F, 0x61, 0x74],
     [0x64, 0x6F, 0x75, 0x62, 0x6C, 0x65], [0x76, 0x6F, 0x69, 0x64]]"
  by (simp add: dataTypes_def fromLatin1_def)

lemma loopKeywords_eq:
  "loopKeywords = [[0x66, 0x6F, 0x72], [0x77, 0x68, 0x69, 0x6C, 0x65], [0x64, 0x6F],
     [0x62, 0x72, 0x65, 0x61, 0x6B], [0x63, 0x6F, 0x6E, 0x74, 0x69, 0x6E, 0x75, 0x65]]"
  by (simp add: loopKeywords_def fromLatin1_def)

lemma otherKeywords_eq:
  "otherKeywords = [[0x69, 0x66], [0x65, 0x6C, 0x73, 0x65], [0x72, 0x65, 0x74, 0x75, 0x72, 0x6E],
     [0x73, 0x77, 0x69, 0x74, 0x63, 0x68], [0x63, 0x61, 0x73, 0x65],
     [0x64, 0x65, 0x66, 0x61, 0x75, 0x6C, 0x74]]"
  by (simp add: otherKeywords_def fromLatin1_def)

lemma wordlike_keywords: "list_all wordlike (map fst keywordTable)"
  by (simp add: keywordTable_def dataTypes_eq loopKeywords_eq otherKeywords_eq wordlike_def is_word_def)

lemma distinct_keywords: "distinct (map fst keywordTable)"
  by (simp add: keywordTable_def dataTypes_eq loopKeywords_eq otherKeywords_eq)

lemma length_keywords: "list_all (\<lambda>w. 2 \<le> length w) (map fst keywordTable)"
  by (simp add: keywordTable_def dataTypes_eq loopKeywords_eq otherKeywords_eq)

lemma formatCalls_new: "formatCalls new_SyntaxHighlighter = []"
  by (simp add: new_SyntaxHighlighter_def setupFormats_def Let_def)

lemma highlightingRules_table:
  "highlightingRules new_SyntaxHighlighter = map word_rule keywordTable"
proof -
  have "list_all (\<lambda>w. list_all is_word w) (map fst keywordTable)"
    using wordlike_keywords by (simp add: list_all_iff wordlike_def)
  then have "list_all (list_all is_word) dataTypes" "list_all (list_all is_word) loopKeywords"
    "list_all (list_all is_word) otherKeywords"
    by (auto simp: keywordTable_def list_all_iff)
  then show ?thesis
    by (simp add: new_SyntaxHighlighter_def setupFormats_def Let_def foldl_append_rules
        keywordTable_def word_rule_def comp_def list_all_iff QRegularExpression_word)
qed

subsection \<open>The matches of an iterator\<close>

lemma iterator_matches_mem:
  "(p, e) \<in> set (iterator_matches as s free ps) \<Longrightarrow>
     p \<in> set ps \<and> free \<le> p \<and> match_at as s p = Some e \<and> \<not> mid_pair s p"
proof (induction ps arbitrary: free)
  case Nil
  then show ?case by simp
next
  case (Cons q ps)
  show ?case
  proof (cases "free \<le> q \<and> \<not> mid_pair s q")
    case False
    with Cons.prems have "(p, e) \<in> set (iterator_matches as s free ps)"
      by simp
    from Cons.IH [OF this] show ?thesis by simp
  next
    case True
    show ?thesis
    proof (cases "match_at as s q")
      case None
      with True Cons.prems have "(p, e) \<in> set (iterator_matches as s free ps)"
        by simp
      from Cons.IH [OF this] show ?thesis by simp
    next
      case (Some e')
      with True Cons.prems have "(p, e) = (q, e') \<or> (p, e) \<in> set (iterator_matches as s (max e' (Suc q)) ps)"
        by simp
      then show ?thesis
      proof
        assume "(p, e) = (q, e')"
        with True Some show ?thesis by simp
      next
        assume "(p, e) \<in> set (iterator_matches as s (max e' (Suc q)) ps)"
        from Cons.IH [OF this] True show ?thesis by simp
      qed
    qed
  qed
qed

lemma iterator_matches_Cons_skip:
  "\<not> (free \<le> q \<and> \<not> mid_pair s q) \<Longrightarrow>
     iterator_matches as s free (q # ps) = iterator_matches as s free ps"
  by (cases "free \<le> q"; cases "mid_pair s q"; simp)

lemma iterator_matches_sorted:
  "sorted_wrt (\<lambda>m m'. max (snd m) (Suc (fst m)) \<le> fst m') (iterator_matches as s free ps)"
proof (induction ps arbitrary: free)
  case Nil
  show ?case by simp
next
  case (Cons q ps)
  show ?case
  proof (cases "free \<le> q \<and> \<not> mid_pair s q")
    case False
    from iterator_matches_Cons_skip [OF False] Cons.IH [of free] show ?thesis by metis
  next
    case True
    show ?thesis
    proof (cases "match_at as s q")
      case None
      with True Cons.IH [of free] show ?thesis by simp
    next
      case (Some e')
      have "\<forall>m\<in>set (iterator_matches as s (max e' (Suc q)) ps). max e' (Suc q) \<le> fst m"
      proof
        fix m assume "m \<in> set (iterator_matches as s (max e' (Suc q)) ps)"
        then have "(fst m, snd m) \<in> set (iterator_matches as s (max e' (Suc q)) ps)" by simp
        from iterator_matches_mem [OF this] show "max e' (Suc q) \<le> fst m" by simp
      qed
      with True Some Cons.IH [of "max e' (Suc q)"] show ?thesis by simp
    qed
  qed
qed

lemma global_matches_word:
  assumes "wordlike w" "m \<in> set (global_matches (Some (whole_word w)) s)"
  shows "whole_word_at w s (fst m) \<and> snd m = fst m + length w"
proof -
  obtain p e where m: "m = (p, e)" by (cases m)
  with assms(2) have "(p, e) \<in> set (iterator_matches (whole_word w) s 0 [0 ..< Suc (length s)])"
    by (simp add: global_matches_def del: upt_Suc split: if_splits)
  from iterator_matches_mem [OF this] have "match_at (whole_word w) s p = Some e" by simp
  with m show ?thesis by (simp add: match_whole_word [OF assms(1)] split: if_splits)
qed

lemma global_matches_sorted:
  "sorted_wrt (\<lambda>m m'. max (snd m) (Suc (fst m)) \<le> fst m') (global_matches re s)"
proof (cases re)
  case None
  then show ?thesis by (simp add: global_matches_def)
next
  case (Some as)
  show ?thesis
  proof (cases "valid_utf16 s")
    case True
    with Some have "global_matches re s = iterator_matches as s 0 [0 ..< Suc (length s)]"
      by (simp add: global_matches_def del: upt_Suc)
    then show ?thesis by (simp only: iterator_matches_sorted)
  next
    case False
    with Some show ?thesis by (simp add: global_matches_def)
  qed
qed

lemma classify_table:
  "classify text =
     concat (map (\<lambda>k. map (span_of (snd k)) (global_matches (Some (whole_word (fst k))) text)) keywordTable)"
  by (simp add: classify_def highlightBlock_ref highlightingRules_table emitted_spans_def
      word_rule_def comp_def formatCalls_new)

text \<open>
  A text that is not well-formed UTF-16 gets no span: the first match is invalid, and the
  loop of no rule runs.
\<close>

lemma classify_malformed: "\<not> valid_utf16 text \<Longrightarrow> classify text = []"
  by (simp add: classify_table global_matches_def)

lemma classify_mem:
  assumes "sp \<in> set (classify text)"
  shows "\<exists>k\<in>set keywordTable. \<exists>p. whole_word_at (fst k) text p
           \<and> sp = Span (int p) (int (length (fst k))) (snd k)"
proof -
  from assms obtain k m where k: "k \<in> set keywordTable"
    and m: "m \<in> set (global_matches (Some (whole_word (fst k))) text)" and sp: "sp = span_of (snd k) m"
    by (auto simp: classify_table)
  from k wordlike_keywords have "wordlike (fst k)" by (simp add: list_all_iff)
  from global_matches_word [OF this m] sp k show ?thesis
    by (intro bexI [of _ k] exI [of _ "fst m"]) (simp_all add: span_of_def)
qed

subsection \<open>Spans of distinct whole words do not overlap\<close>

lemma whole_word_at_word:
  assumes "wordlike w" "whole_word_at w s p" "p \<le> i" "i < p + length w"
  shows "i < length s \<and> is_word (s ! i)"
proof -
  from assms(2) have le: "p + length w \<le> length s" and tk: "take (length w) (drop p s) = w"
    by (simp_all add: whole_word_at_def)
  from occurrence_chars [OF le tk assms(3,4)] have "s ! i = w ! (i - p)" .
  moreover from assms(3,4) have "i - p < length w" by arith
  with assms(1) have "is_word (w ! (i - p))" by (simp add: wordlike_def list_all_length)
  moreover from le assms(4) have "i < length s" by arith
  ultimately show ?thesis by simp
qed

lemma whole_word_at_start:
  assumes "wordlike w" "whole_word_at w s p" "wordlike w'" "whole_word_at w' s p'"
    and "p < p'"
  shows "p + length w \<le> p'"
proof (rule ccontr)
  assume "\<not> p + length w \<le> p'"
  with \<open>p < p'\<close> have "p \<le> p' - 1" "p' - 1 < p + length w" by arith+
  from whole_word_at_word [OF assms(1,2) this] have "p' - 1 < length s" "is_word (s ! (p' - 1))"
    by simp_all
  with \<open>p < p'\<close> have "word_before s p'" by (simp add: word_before_def)
  with assms(4) show False by (simp add: whole_word_at_def)
qed

lemma whole_word_at_end:
  assumes "wordlike w" "whole_word_at w s p" "wordlike w'" "whole_word_at w' s p"
  shows "length w \<le> length w'"
proof (rule ccontr)
  assume "\<not> length w \<le> length w'"
  then have "p \<le> p + length w'" "p + length w' < p + length w" by arith+
  from whole_word_at_word [OF assms(1,2) this] have "word_at s (p + length w')"
    by (simp add: word_at_def)
  with assms(4) show False by (simp add: whole_word_at_def)
qed

lemma whole_word_at_disjoint:
  assumes "wordlike w" "whole_word_at w s p" "wordlike w'" "whole_word_at w' s p'"
  shows "(p = p' \<and> w = w') \<or> p + length w \<le> p' \<or> p' + length w' \<le> p"
proof -
  consider "p < p'" | "p' < p" | "p = p'" by arith
  then show ?thesis
  proof cases
    case 1
    from whole_word_at_start [OF assms 1] show ?thesis by simp
  next
    case 2
    from whole_word_at_start [OF assms(3,4,1,2) 2] show ?thesis by simp
  next
    case 3
    with assms have "length w \<le> length w'" "length w' \<le> length w"
      by (auto intro: whole_word_at_end)
    then have "length w = length w'" by simp
    moreover from assms(2,4) 3 have "take (length w) (drop p s) = w" "take (length w') (drop p s) = w'"
      by (simp_all add: whole_word_at_def)
    ultimately have "w = w'" by metis
    with 3 show ?thesis by simp
  qed
qed

lemma spans_of_rule_disjoint:
  "sorted_wrt span_disjoint (map (span_of f) (global_matches (Some (whole_word w)) s))"
proof -
  have "sorted_wrt (\<lambda>m m'. span_disjoint (span_of f m) (span_of f m')) (global_matches (Some (whole_word w)) s)"
    by (rule sorted_wrt_mono_rel [OF _ global_matches_sorted])
       (simp add: span_disjoint_def span_of_def)
  then show ?thesis by (simp add: sorted_wrt_map)
qed

lemma spans_of_table_disjoint:
  assumes "list_all wordlike (map fst tbl)" "distinct (map fst tbl)"
  shows "sorted_wrt span_disjoint
     (concat (map (\<lambda>k. map (span_of (snd k)) (global_matches (Some (whole_word (fst k))) s)) tbl))"
  using assms
proof (induction tbl)
  case Nil
  show ?case by simp
next
  case (Cons k tbl)
  let ?g = "\<lambda>k. map (span_of (snd k)) (global_matches (Some (whole_word (fst k))) s)"
  from Cons.prems have wk: "wordlike (fst k)" and wt: "list_all wordlike (map fst tbl)"
    and nk: "fst k \<notin> fst ` set tbl" and dt: "distinct (map fst tbl)"
    by simp_all
  have cross: "span_disjoint a b" if a: "a \<in> set (?g k)" and b: "b \<in> set (concat (map ?g tbl))" for a b
  proof -
    from a obtain m where m: "m \<in> set (global_matches (Some (whole_word (fst k))) s)"
      and am: "a = span_of (snd k) m" by auto
    from b obtain k' m' where k': "k' \<in> set tbl"
      and m': "m' \<in> set (global_matches (Some (whole_word (fst k'))) s)"
      and bm: "b = span_of (snd k') m'" by auto
    from k' wt have wk': "wordlike (fst k')" by (simp add: list_all_iff)
    from k' nk have ne: "fst k \<noteq> fst k'" by auto
    from global_matches_word [OF wk m] have o: "whole_word_at (fst k) s (fst m)"
      and e: "snd m = fst m + length (fst k)" by simp_all
    from global_matches_word [OF wk' m'] have o': "whole_word_at (fst k') s (fst m')"
      and e': "snd m' = fst m' + length (fst k')" by simp_all
    from whole_word_at_disjoint [OF wk o wk' o'] ne
    have "fst m + length (fst k) \<le> fst m' \<or> fst m' + length (fst k') \<le> fst m" by simp
    with e e' show ?thesis by (auto simp: am bm span_disjoint_def span_of_def)
  qed
  from Cons.IH [OF wt dt] spans_of_rule_disjoint [of "snd k" "fst k" s] cross
  show ?case by (simp add: sorted_wrt_append)
qed

lemma classify_disjoint: "sorted_wrt span_disjoint (classify text)"
  unfolding classify_table by (rule spans_of_table_disjoint [OF wordlike_keywords distinct_keywords])

subsection \<open>A text that is one keyword\<close>

lemma is_word_not_high: "is_word c \<Longrightarrow> \<not> isHighSurrogate c"
  unfolding is_word_def isHighSurrogate_def word_le_nat_alt by auto

lemma wordlike_valid_utf16: "list_all is_word w \<Longrightarrow> valid_utf16 w"
  by (induction w) (simp_all add: is_word_not_high is_word_not_low)

lemma whole_word_at_self: "wordlike w \<Longrightarrow> whole_word_at w w 0"
  by (simp add: whole_word_at_def word_before_def word_at_def)

lemma whole_word_at_in_word:
  assumes "list_all is_word s" "whole_word_at w s p"
  shows "p = 0 \<and> w = s"
proof -
  from assms(2) have le: "p + length w \<le> length s" and tk: "take (length w) (drop p s) = w"
    and nb: "\<not> word_before s p" and na: "\<not> word_at s (p + length w)"
    by (simp_all add: whole_word_at_def)
  have p: "p = 0"
  proof (rule ccontr)
    assume "p \<noteq> 0"
    with le have "0 < p" "p \<le> length s" "p - 1 < length s" by arith+
    with assms(1) have "word_before s p" by (simp add: word_before_def list_all_length)
    with nb show False by simp
  qed
  have "\<not> p + length w < length s"
  proof
    assume "p + length w < length s"
    with assms(1) have "word_at s (p + length w)" by (simp add: word_at_def list_all_length)
    with na show False by simp
  qed
  with le p have "length w = length s" by arith
  with tk p show ?thesis by simp
qed

lemma global_matches_in_word:
  assumes "wordlike k" "wordlike w"
  shows "global_matches (Some (whole_word k)) w = (if k = w then [(0, length w)] else [])"
proof -
  from assms(2) have lw: "list_all is_word w" by (simp add: wordlike_def)
  have none: "match_at (whole_word k) w p = None" if "p \<noteq> 0 \<or> k \<noteq> w" for p
    using that whole_word_at_in_word [OF lw, of k p] by (auto simp: match_whole_word [OF assms(1)])
  have tail: "iterator_matches (whole_word k) w free ([Suc 0 ..< Suc (length w)] @ []) =
      iterator_matches (whole_word k) w free []" for free
  proof (rule iterator_matches_skip, intro ballI impI disjI2)
    fix p assume "p \<in> set [Suc 0 ..< Suc (length w)]"
    then have "p \<noteq> 0" by (simp del: upt_Suc)
    then show "match_at (whole_word k) w p = None" by (simp add: none)
  qed
  have upt: "[0 ..< Suc (length w)] = 0 # [Suc 0 ..< Suc (length w)]"
    by (simp add: upt_conv_Cons del: upt_Suc)
  have nm: "\<not> mid_pair w 0" by (simp add: mid_pair_def)
  show ?thesis
  proof (cases "k = w")
    case True
    with whole_word_at_self [OF assms(2)]
    have "match_at (whole_word k) w 0 = Some (length w)"
      by (simp add: match_whole_word [OF assms(2)])
    with True nm tail show ?thesis
      by (simp add: global_matches_def wordlike_valid_utf16 [OF lw] upt del: upt_Suc)
  next
    case False
    with none [of 0] nm tail show ?thesis
      by (simp add: global_matches_def wordlike_valid_utf16 [OF lw] upt del: upt_Suc)
  qed
qed

lemma concat_single_key:
  assumes "distinct (map fst tbl)" "k \<in> set tbl"
  shows "concat (map (\<lambda>k'. if fst k' = fst k then [f k'] else []) tbl) = [f k]"
  using assms
proof (induction tbl)
  case Nil
  then show ?case by simp
next
  case (Cons a tbl)
  show ?case
  proof (cases "a = k")
    case True
    with Cons.prems have "fst k \<notin> fst ` set tbl" by simp
    then have "\<forall>k'\<in>set tbl. fst k' \<noteq> fst k" by (metis imageI)
    then have "concat (map (\<lambda>k'. if fst k' = fst k then [f k'] else []) tbl) = []"
      by (induction tbl) simp_all
    with True show ?thesis by simp
  next
    case False
    with Cons.prems have "k \<in> set tbl" "fst a \<noteq> fst k" "distinct (map fst tbl)"
      by (auto simp: image_iff)
    with Cons.IH show ?thesis by simp
  qed
qed

lemma classify_keyword:
  assumes "k \<in> set keywordTable"
  shows "classify (fst k) = [Span 0 (int (length (fst k))) (snd k)]"
proof -
  from assms wordlike_keywords have wk: "wordlike (fst k)" by (simp add: list_all_iff)
  have "map (\<lambda>k'. map (span_of (snd k')) (global_matches (Some (whole_word (fst k'))) (fst k))) keywordTable =
      map (\<lambda>k'. if fst k' = fst k then [Span 0 (int (length (fst k))) (snd k')] else []) keywordTable"
  proof (rule map_cong [OF refl])
    fix k' assume "k' \<in> set keywordTable"
    with wordlike_keywords have "wordlike (fst k')" by (simp add: list_all_iff)
    from global_matches_in_word [OF this wk]
    show "map (span_of (snd k')) (global_matches (Some (whole_word (fst k'))) (fst k)) =
       (if fst k' = fst k then [Span 0 (int (length (fst k))) (snd k')] else [])"
      by (simp add: span_of_def)
  qed
  then have "classify (fst k) =
      concat (map (\<lambda>k'. if fst k' = fst k then [Span 0 (int (length (fst k))) (snd k')] else []) keywordTable)"
    by (simp only: classify_table)
  also have "\<dots> = [Span 0 (int (length (fst k))) (snd k)]"
    by (rule concat_single_key [OF distinct_keywords assms])
  finally show ?thesis .
qed

subsection \<open>The matches of the reference\<close>

lemma nonoverlapping_mem:
  "(p, e) \<in> set (nonoverlapping as s free ps) \<Longrightarrow>
     p \<in> set ps \<and> free \<le> p \<and> match_at as s p = Some e"
proof (induction ps arbitrary: free)
  case Nil
  then show ?case by simp
next
  case (Cons q ps)
  show ?case
  proof (cases "free \<le> q")
    case False
    with Cons.prems have "(p, e) \<in> set (nonoverlapping as s free ps)" by simp
    from Cons.IH [OF this] show ?thesis by simp
  next
    case True
    show ?thesis
    proof (cases "match_at as s q")
      case None
      with True Cons.prems have "(p, e) \<in> set (nonoverlapping as s free ps)" by simp
      from Cons.IH [OF this] show ?thesis by simp
    next
      case (Some e')
      with True Cons.prems
      have "(p, e) = (q, e') \<or> (p, e) \<in> set (nonoverlapping as s (max e' (Suc q)) ps)"
        by simp
      then show ?thesis
      proof
        assume "(p, e) = (q, e')"
        with True Some show ?thesis by simp
      next
        assume "(p, e) \<in> set (nonoverlapping as s (max e' (Suc q)) ps)"
        from Cons.IH [OF this] True show ?thesis by simp
      qed
    qed
  qed
qed

lemma nonoverlapping_sorted:
  "sorted_wrt (\<lambda>m m'. max (snd m) (Suc (fst m)) \<le> fst m') (nonoverlapping as s free ps)"
proof (induction ps arbitrary: free)
  case Nil
  show ?case by simp
next
  case (Cons q ps)
  show ?case
  proof (cases "free \<le> q")
    case False
    with Cons.IH [of free] show ?thesis by simp
  next
    case True
    show ?thesis
    proof (cases "match_at as s q")
      case None
      with True Cons.IH [of free] show ?thesis by simp
    next
      case (Some e')
      have "\<forall>m\<in>set (nonoverlapping as s (max e' (Suc q)) ps). max e' (Suc q) \<le> fst m"
      proof
        fix m assume "m \<in> set (nonoverlapping as s (max e' (Suc q)) ps)"
        then have "(fst m, snd m) \<in> set (nonoverlapping as s (max e' (Suc q)) ps)" by simp
        from nonoverlapping_mem [OF this] show "max e' (Suc q) \<le> fst m" by simp
      qed
      with True Some Cons.IH [of "max e' (Suc q)"] show ?thesis by simp
    qed
  qed
qed

lemma nonoverlapping_exhaustive:
  assumes "sorted_wrt (<) ps" "q \<in> set ps" "free \<le> q" "match_at as s q = Some e'"
  shows "(q, e') \<in> set (nonoverlapping as s free ps)
     \<or> (\<exists>m\<in>set (nonoverlapping as s free ps). fst m < q \<and> q < max (snd m) (Suc (fst m)))"
  using assms
proof (induction ps arbitrary: free)
  case Nil
  then show ?case by simp
next
  case (Cons x xs)
  from Cons.prems(1) have sx: "sorted_wrt (<) xs" and gt: "\<forall>y\<in>set xs. x < y" by simp_all
  show ?case
  proof (cases "free \<le> x")
    case False
    with Cons.prems have "q \<noteq> x" by auto
    with Cons.prems(2) have "q \<in> set xs" by simp
    from Cons.IH [OF sx this Cons.prems(3,4)] False show ?thesis by simp
  next
    case True
    show ?thesis
    proof (cases "match_at as s x")
      case None
      with Cons.prems have "q \<noteq> x" by auto
      with Cons.prems(2) have "q \<in> set xs" by simp
      from Cons.IH [OF sx this Cons.prems(3,4)] True None show ?thesis by simp
    next
      case (Some e)
      have L: "nonoverlapping as s free (x # xs) = (x, e) # nonoverlapping as s (max e (Suc x)) xs"
        using True Some by simp
      consider "q = x" | "q \<in> set xs" "q < max e (Suc x)" | "q \<in> set xs" "max e (Suc x) \<le> q"
        using Cons.prems(2) by fastforce
      then show ?thesis
      proof cases
        case 1
        with Some Cons.prems(4) L show ?thesis by simp
      next
        case 2
        with gt have "fst (x, e) < q \<and> q < max (snd (x, e)) (Suc (fst (x, e)))" by simp
        moreover have "(x, e) \<in> set (nonoverlapping as s free (x # xs))"
          by (simp only: L list.set_intros)
        ultimately show ?thesis by blast
      next
        case 3
        from Cons.IH [OF sx 3(1) 3(2) Cons.prems(4)] show ?thesis
          by (simp only: L) auto
      qed
    qed
  qed
qed

text \<open>
  What the matches of the reference are: every one is a match of the pattern inside the
  text; they stand from left to right and do not overlap; and a position where the
  pattern matches is the start of one of them or is covered by an earlier one.
\<close>

lemma all_matches_sound:
  assumes "m \<in> set (all_matches (Some as) s)"
  shows "match_at as s (fst m) = Some (snd m) \<and> fst m \<le> snd m \<and> snd m \<le> length s"
proof -
  from assms have "(fst m, snd m) \<in> set (nonoverlapping as s 0 [0 ..< Suc (length s)])"
    by (simp add: all_matches_def del: upt_Suc)
  from nonoverlapping_mem [OF this] have "fst m \<in> set [0 ..< Suc (length s)]"
    and m: "match_at as s (fst m) = Some (snd m)" by simp_all
  then have "fst m \<le> length s" by (simp del: upt_Suc)
  with match_at_bounds [OF m] m show ?thesis by simp
qed

lemma all_matches_sorted:
  "sorted_wrt (\<lambda>m m'. max (snd m) (Suc (fst m)) \<le> fst m') (all_matches re s)"
proof (cases re)
  case None
  then show ?thesis by (simp add: all_matches_def)
next
  case (Some as)
  then have "all_matches re s = nonoverlapping as s 0 [0 ..< Suc (length s)]"
    by (simp add: all_matches_def del: upt_Suc)
  then show ?thesis by (simp only: nonoverlapping_sorted)
qed

lemma all_matches_exhaustive:
  assumes "q \<le> length s" "match_at as s q = Some e'"
  shows "(q, e') \<in> set (all_matches (Some as) s)
     \<or> (\<exists>m\<in>set (all_matches (Some as) s). fst m < q \<and> q < max (snd m) (Suc (fst m)))"
proof -
  have "q \<in> set [0 ..< Suc (length s)]" using assms(1) by (simp del: upt_Suc)
  from nonoverlapping_exhaustive [OF _ this _ assms(2), of 0]
  show ?thesis by (simp add: all_matches_def del: upt_Suc)
qed

subsection \<open>The loops and the reference on well-formed text\<close>

lemma iterator_matches_plain:
  assumes "\<And>p e. match_at as s p = Some e \<Longrightarrow> \<not> mid_pair s p"
  shows "iterator_matches as s free ps = nonoverlapping as s free ps"
proof (induction ps arbitrary: free)
  case Nil
  show ?case by simp
next
  case (Cons q ps)
  show ?case
  proof (cases "match_at as s q")
    case None
    with Cons.IH [of free] show ?thesis by simp
  next
    case (Some e)
    from assms [OF Some] Some Cons.IH show ?thesis by simp
  qed
qed

lemma whole_word_not_mid_pair:
  assumes "wordlike w" "match_at (whole_word w) s p = Some e"
  shows "\<not> mid_pair s p"
proof -
  from assms have o: "whole_word_at w s p"
    by (simp add: match_whole_word split: if_splits)
  from assms(1) have "p < p + length w" by (simp add: wordlike_def)
  from whole_word_at_word [OF assms(1) o le_refl this] have "is_word (s ! p)" by simp
  then have "\<not> isLowSurrogate (s ! p)" by (rule is_word_not_low)
  then show ?thesis by (simp add: mid_pair_def)
qed

lemma global_matches_ref:
  assumes "wordlike w" "valid_utf16 s"
  shows "global_matches (Some (whole_word w)) s = all_matches (Some (whole_word w)) s"
proof -
  have "iterator_matches (whole_word w) s 0 [0 ..< Suc (length s)] =
      nonoverlapping (whole_word w) s 0 [0 ..< Suc (length s)]"
    by (rule iterator_matches_plain) (rule whole_word_not_mid_pair [OF assms(1)])
  with assms(2) show ?thesis by (simp add: global_matches_def all_matches_def del: upt_Suc)
qed

lemma classify_ref_table:
  "classify_ref (highlightingRules new_SyntaxHighlighter) text =
     concat (map (\<lambda>k. map (span_of (snd k)) (all_matches (Some (whole_word (fst k))) text)) keywordTable)"
  by (simp add: classify_ref_def highlightingRules_table word_rule_def comp_def)

lemma classify_well_formed:
  assumes "valid_utf16 text"
  shows "classify text = classify_ref (highlightingRules new_SyntaxHighlighter) text"
proof -
  have "map (\<lambda>k. map (span_of (snd k)) (global_matches (Some (whole_word (fst k))) text)) keywordTable =
      map (\<lambda>k. map (span_of (snd k)) (all_matches (Some (whole_word (fst k))) text)) keywordTable"
  proof (rule map_cong [OF refl])
    fix k assume "k \<in> set keywordTable"
    with wordlike_keywords have "wordlike (fst k)" by (simp add: list_all_iff)
    from global_matches_ref [OF this assms]
    show "map (span_of (snd k)) (global_matches (Some (whole_word (fst k))) text) =
       map (span_of (snd k)) (all_matches (Some (whole_word (fst k))) text)"
      by simp
  qed
  then show ?thesis by (simp only: classify_table classify_ref_table)
qed

subsection \<open>Invalid matches\<close>





subsection \<open>The keyword table and runs of calls\<close>

lemma highlightBlock_frame:
  assumes "highlightingRules this = highlightingRules new_SyntaxHighlighter"
  shows "highlightBlock this text = this\<lparr>formatCalls := formatCalls this @ classify text\<rparr>"
  by (simp add: highlightBlock_ref assms classify_def formatCalls_new)

lemma highlightBlocks_run:
  "highlightingRules this = highlightingRules new_SyntaxHighlighter \<Longrightarrow>
     highlightBlocks this texts =
       this\<lparr>formatCalls := formatCalls this @ concat (map classify texts)\<rparr>"
  unfolding highlightBlocks_def
  by (induction texts arbitrary: this) (simp_all add: highlightBlock_frame)

lemma keywordTable_eq:
  "keywordTable =
     [(fromLatin1 ''int'', dataTypeFormat), (fromLatin1 ''char'', dataTypeFormat),
      (fromLatin1 ''float'', dataTypeFormat), (fromLatin1 ''double'', dataTypeFormat),
      (fromLatin1 ''void'', dataTypeFormat),
      (fromLatin1 ''for'', loopFormat), (fromLatin1 ''while'', loopFormat),
      (fromLatin1 ''do'', loopFormat), (fromLatin1 ''break'', loopFormat),
      (fromLatin1 ''continue'', loopFormat),
      (fromLatin1 ''if'', keywordFormat), (fromLatin1 ''else'', keywordFormat),
      (fromLatin1 ''return'', keywordFormat), (fromLatin1 ''switch'', keywordFormat),
      (fromLatin1 ''case'', keywordFormat), (fromLatin1 ''default'', keywordFormat)]"
  by (simp add: keywordTable_def dataTypes_def loopKeywords_def otherKeywords_def)

lemma highlightingRules_patterns:
  "highlightingRules new_SyntaxHighlighter =
     map (\<lambda>k. \<lparr>pattern = QRegularExpression (backslash_b @ fst k @ backslash_b), format = snd k\<rparr>)
       keywordTable"
  by (simp add: new_SyntaxHighlighter_def setupFormats_def Let_def foldl_append_rules
      keywordTable_def comp_def)

lemma classify_no_keyword:
  assumes "\<forall>k\<in>set keywordTable. \<forall>p. \<not> whole_word_at (fst k) text p"
  shows "classify text = []"
proof (rule ccontr)
  assume "classify text \<noteq> []"
  then obtain sp where "sp \<in> set (classify text)" by (cases "classify text") auto
  from classify_mem [OF this] assms show False by blast
qed

lemma whole_word_at_bounded: "whole_word_at w s p \<Longrightarrow> p \<in> set [0 ..< Suc (length s)]"
  by (simp add: whole_word_at_def del: upt_Suc)

lemma no_occurrence:
  "list_all (\<lambda>p. \<not> whole_word_at w s p) [0 ..< Suc (length s)] \<Longrightarrow> \<not> whole_word_at w s p"
  using whole_word_at_bounded [of w s p] by (auto simp: list_all_iff simp del: upt_Suc)

lemma integer_x_no_keyword:
  "\<forall>k\<in>set keywordTable.
     list_all (\<lambda>p. \<not> whole_word_at (fst k) (fromLatin1 ''integer x'') p)
       [0 ..< Suc (length (fromLatin1 ''integer x''))]"
  by code_simp

subsection \<open>Concrete texts\<close>


lemma classify_integer: "classify (fromLatin1 ''integer'') = []"
  by code_simp

lemma classify_int_x: "classify (fromLatin1 ''int x'') = [Span 0 3 dataTypeFormat]"
  by code_simp

lemma classify_if_int:
  "classify (fromLatin1 ''if int'') = [Span 3 3 dataTypeFormat, Span 0 2 keywordFormat]"
  by code_simp

lemma classify_for_loop:
  "classify (fromLatin1 ''for(int i=0;i<10;i++) { return; }'') =
     [Span 4 3 dataTypeFormat, Span 0 3 loopFormat, Span 24 6 keywordFormat]"
  by code_simp

lemma malformed_text: "\<not> valid_utf16 (0xD800 # fromLatin1 '' int x'')"
  by code_simp

lemma classify_ref_malformed:
  "classify_ref (highlightingRules new_SyntaxHighlighter) (0xD800 # fromLatin1 '' int x'') = [Span 2 3 dataTypeFormat]"
  by code_simp


lemma well_formed_if_int: "valid_utf16 (fromLatin1 ''if int'')"
  by code_simp

lemma formats_distinct:
  "dataTypeFormat \<noteq> loopFormat \<and> dataTypeFormat \<noteq> keywordFormat \<and> loopFormat \<noteq> keywordFormat"
  by (simp add: dataTypeFormat_def loopFormat_def keywordFormat_def emptyFormat_def)

section \<open>The claims\<close>

text \<open>
  Claim C1, as the code has it. For every text that is well-formed UTF-16, the spans that
  \<^verbatim>\<open>highlightBlock\<close> emits are those of the reference computation: the rules are taken in
  the order of the table, and each rule gives one span (start, length, format of the
  rule) for every match of its pattern, the matches of one rule being found from left to
  right without overlap. So the output is ordered by the position of the rule first and
  not by the position in the text: in \<^verbatim>\<open>"if int"\<close> the span of \<^verbatim>\<open>int\<close> at offset 3 comes
  before the span of \<^verbatim>\<open>if\<close> at offset 0. For a text that is not well-formed UTF-16 no span
  is emitted. The lemmas \<open>all_matches_sound\<close>, \<open>all_matches_sorted\<close> and
  \<open>all_matches_exhaustive\<close> say what the matches of the reference are.
\<close>

theorem C1_classify_reference:
  "(valid_utf16 text \<longrightarrow>
      classify text = classify_ref (highlightingRules new_SyntaxHighlighter) text)
   \<and> (\<not> valid_utf16 text \<longrightarrow> classify text = [])
   \<and> classify (fromLatin1 ''if int'') = [Span 3 3 dataTypeFormat, Span 0 2 keywordFormat]"
proof (intro conjI impI)
  assume "valid_utf16 text"
  then show "classify text = classify_ref (highlightingRules new_SyntaxHighlighter) text"
    by (rule classify_well_formed)
next
  assume "\<not> valid_utf16 text"
  then show "classify text = []" by (rule classify_malformed)
next
  show "classify (fromLatin1 ''if int'') = [Span 3 3 dataTypeFormat, Span 0 2 keywordFormat]"
    by (rule classify_if_int)
qed

text \<open>
  The well-formed text \<^verbatim>\<open>"if int"\<close>, and the text of a lone high surrogate followed by
  \<^verbatim>\<open>" int x"\<close>.
\<close>

theorem C1_classify_reference_witness:
  "valid_utf16 (fromLatin1 ''if int'')
   \<and> classify_ref (highlightingRules new_SyntaxHighlighter) (fromLatin1 ''if int'') =
       [Span 3 3 dataTypeFormat, Span 0 2 keywordFormat]
   \<and> \<not> valid_utf16 (0xD800 # fromLatin1 '' int x'')
   \<and> classify (0xD800 # fromLatin1 '' int x'') = []"
proof -
  from C1_classify_reference [of "fromLatin1 ''if int''"] well_formed_if_int
  have "classify_ref (highlightingRules new_SyntaxHighlighter) (fromLatin1 ''if int'') =
      [Span 3 3 dataTypeFormat, Span 0 2 keywordFormat]"
    by metis
  moreover from C1_classify_reference [of "(0xD800 # fromLatin1 '' int x'')"] malformed_text
  have "classify (0xD800 # fromLatin1 '' int x'') = []" by blast
  ultimately show ?thesis using well_formed_if_int malformed_text by blast
qed

text \<open>
  Claim C1 as the specification states it, for every text, fails: on a lone high surrogate
  followed by \<^verbatim>\<open>" int x"\<close> the reference finds the whole word \<^verbatim>\<open>int\<close> at offset 2, and
  \<^verbatim>\<open>highlightBlock\<close> emits nothing.
\<close>

theorem C1_malformed_counterexample:
  "classify (0xD800 # fromLatin1 '' int x'') = []
   \<and> classify_ref (highlightingRules new_SyntaxHighlighter) (0xD800 # fromLatin1 '' int x'') = [Span 2 3 dataTypeFormat]"
  using classify_malformed [OF malformed_text] classify_ref_malformed by (rule conjI)

text \<open>
  Claim C2. The table that the constructor builds has 16 rules in this order: the
  data types \<^verbatim>\<open>int char float double void\<close> with the data-type format, the loop words
  \<^verbatim>\<open>for while do break continue\<close> with the loop format, and the words
  \<^verbatim>\<open>if else return switch case default\<close> with the keyword format. Every pattern is a
  valid pattern, and it matches at a position exactly when the word stands there with no
  word character directly before it and none directly behind it.
\<close>

theorem C2_rule_table:
  "highlightingRules new_SyntaxHighlighter =
     map (\<lambda>k. \<lparr>pattern = QRegularExpression (backslash_b @ fst k @ backslash_b), format = snd k\<rparr>)
       [(fromLatin1 ''int'', dataTypeFormat), (fromLatin1 ''char'', dataTypeFormat),
        (fromLatin1 ''float'', dataTypeFormat), (fromLatin1 ''double'', dataTypeFormat),
        (fromLatin1 ''void'', dataTypeFormat),
        (fromLatin1 ''for'', loopFormat), (fromLatin1 ''while'', loopFormat),
        (fromLatin1 ''do'', loopFormat), (fromLatin1 ''break'', loopFormat),
        (fromLatin1 ''continue'', loopFormat),
        (fromLatin1 ''if'', keywordFormat), (fromLatin1 ''else'', keywordFormat),
        (fromLatin1 ''return'', keywordFormat), (fromLatin1 ''switch'', keywordFormat),
        (fromLatin1 ''case'', keywordFormat), (fromLatin1 ''default'', keywordFormat)]
   \<and> length (highlightingRules new_SyntaxHighlighter) = 16
   \<and> (\<forall>k\<in>set keywordTable.
         QRegularExpression (backslash_b @ fst k @ backslash_b) = Some (whole_word (fst k))
         \<and> (\<forall>s p e. match_at (whole_word (fst k)) s p = Some e
               \<longleftrightarrow> whole_word_at (fst k) s p \<and> e = p + length (fst k)))"
proof (intro conjI ballI allI)
  show "highlightingRules new_SyntaxHighlighter =
     map (\<lambda>k. \<lparr>pattern = QRegularExpression (backslash_b @ fst k @ backslash_b), format = snd k\<rparr>)
       [(fromLatin1 ''int'', dataTypeFormat), (fromLatin1 ''char'', dataTypeFormat),
        (fromLatin1 ''float'', dataTypeFormat), (fromLatin1 ''double'', dataTypeFormat),
        (fromLatin1 ''void'', dataTypeFormat),
        (fromLatin1 ''for'', loopFormat), (fromLatin1 ''while'', loopFormat),
        (fromLatin1 ''do'', loopFormat), (fromLatin1 ''break'', loopFormat),
        (fromLatin1 ''continue'', loopFormat),
        (fromLatin1 ''if'', keywordFormat), (fromLatin1 ''else'', keywordFormat),
        (fromLatin1 ''return'', keywordFormat), (fromLatin1 ''switch'', keywordFormat),
        (fromLatin1 ''case'', keywordFormat), (fromLatin1 ''default'', keywordFormat)]"
    by (simp only: highlightingRules_patterns keywordTable_eq)
  show "length (highlightingRules new_SyntaxHighlighter) = 16"
    by (simp add: highlightingRules_patterns keywordTable_eq)
next
  fix k assume "k \<in> set keywordTable"
  with wordlike_keywords have w: "wordlike (fst k)" by (simp add: list_all_iff)
  then show "QRegularExpression (backslash_b @ fst k @ backslash_b) = Some (whole_word (fst k))"
    by (simp add: QRegularExpression_word wordlike_def)
  fix s p e
  show "match_at (whole_word (fst k)) s p = Some e
               \<longleftrightarrow> whole_word_at (fst k) s p \<and> e = p + length (fst k)"
    by (auto simp: match_whole_word [OF w])
qed

text \<open>The pattern of \<^verbatim>\<open>int\<close> on the text \<^verbatim>\<open>"int x"\<close>.\<close>

theorem C2_rule_table_witness:
  "QRegularExpression (backslash_b @ fromLatin1 ''int'' @ backslash_b) = Some (whole_word (fromLatin1 ''int''))
   \<and> match_at (whole_word (fromLatin1 ''int'')) (fromLatin1 ''int x'') 0 = Some 3
   \<and> whole_word_at (fromLatin1 ''int'') (fromLatin1 ''int x'') 0"
proof -
  have k: "(fromLatin1 ''int'', dataTypeFormat) \<in> set keywordTable"
    by (simp add: keywordTable_eq)
  have m: "match_at (whole_word (fromLatin1 ''int'')) (fromLatin1 ''int x'') 0 = Some 3"
    by code_simp
  from C2_rule_table [THEN conjunct2, THEN conjunct2, rule_format, OF k] m
  show ?thesis by simp
qed

text \<open>
  Claim C3. A text that is exactly one configured keyword gets exactly one span: it starts
  at offset 0, has the length of the text and the format of the keyword's rule.
\<close>

theorem C3_single_keyword:
  "\<forall>k\<in>set keywordTable. classify (fst k) = [Span 0 (int (length (fst k))) (snd k)]"
  by (intro ballI classify_keyword)

text \<open>The text \<^verbatim>\<open>"return"\<close>.\<close>

theorem C3_single_keyword_witness:
  "classify (fromLatin1 ''return'') = [Span 0 6 keywordFormat]"
proof -
  have "(fromLatin1 ''return'', keywordFormat) \<in> set keywordTable"
    by (simp add: keywordTable_eq)
  from C3_single_keyword [rule_format, OF this] show ?thesis
    by (simp add: fromLatin1_def)
qed

text \<open>
  Claim C4. \<^verbatim>\<open>"integer"\<close> gets no span at all, so none for the \<^verbatim>\<open>int\<close> inside it;
  \<^verbatim>\<open>"int x"\<close> gets the data-type span at offset 0 of length 3, which covers \<^verbatim>\<open>int\<close>.
\<close>

theorem C4_whole_word_boundary:
  "classify (fromLatin1 ''integer'') = []
   \<and> classify (fromLatin1 ''int x'') = [Span 0 3 dataTypeFormat]
   \<and> take 3 (drop 0 (fromLatin1 ''int x'')) = fromLatin1 ''int''"
  by (simp add: classify_integer classify_int_x) (simp add: fromLatin1_def)

text \<open>
  Claim C5. A text in which no configured keyword occurs as a whole word gets no span;
  in particular the empty text gets none.
\<close>

theorem C5_no_keyword_no_span:
  "((\<forall>k\<in>set keywordTable. \<forall>p. \<not> whole_word_at (fst k) text p) \<longrightarrow> classify text = [])
   \<and> classify [] = []"
proof (intro conjI impI)
  assume "\<forall>k\<in>set keywordTable. \<forall>p. \<not> whole_word_at (fst k) text p"
  then show "classify text = []" by (rule classify_no_keyword)
next
  have "\<not> whole_word_at (fst k) [] p" if "k \<in> set keywordTable" for k p
  proof -
    from that wordlike_keywords have "fst k \<noteq> []" by (simp add: list_all_iff wordlike_def)
    then show ?thesis by (simp add: whole_word_at_def)
  qed
  then show "classify [] = []" by (intro classify_no_keyword) simp
qed

text \<open>The text \<^verbatim>\<open>"integer x"\<close> has no whole-word occurrence of a keyword.\<close>

theorem C5_no_keyword_no_span_witness:
  "list_all (\<lambda>k. list_all (\<lambda>p. \<not> whole_word_at (fst k) (fromLatin1 ''integer x'') p)
          [0 ..< Suc (length (fromLatin1 ''integer x''))]) keywordTable
   \<and> classify (fromLatin1 ''integer x'') = []"
proof -
  have "\<forall>k\<in>set keywordTable. \<forall>p. \<not> whole_word_at (fst k) (fromLatin1 ''integer x'') p"
  proof (intro ballI allI)
    fix k p assume "k \<in> set keywordTable"
    from integer_x_no_keyword [rule_format, OF this]
    show "\<not> whole_word_at (fst k) (fromLatin1 ''integer x'') p" by (rule no_occurrence)
  qed
  with C5_no_keyword_no_span [of "fromLatin1 ''integer x''"]
  have "classify (fromLatin1 ''integer x'') = []" by blast
  moreover have "list_all (\<lambda>k. list_all (\<lambda>p. \<not> whole_word_at (fst k) (fromLatin1 ''integer x'') p)
          [0 ..< Suc (length (fromLatin1 ''integer x''))]) keywordTable"
    using integer_x_no_keyword by (simp only: list_all_iff)
  ultimately show ?thesis by simp
qed

text \<open>
  Claim C6. For \<^verbatim>\<open>"for(int i=0;i<10;i++) { return; }"\<close> the spans are: offset 4, length 3,
  data type (the word \<^verbatim>\<open>int\<close>); offset 0, length 3, loop (the word \<^verbatim>\<open>for\<close>); offset 24,
  length 6, keyword (the word \<^verbatim>\<open>return\<close>). The three spans are pairwise disjoint.
\<close>

theorem C6_three_categories:
  "classify (fromLatin1 ''for(int i=0;i<10;i++) { return; }'') =
     [Span 4 3 dataTypeFormat, Span 0 3 loopFormat, Span 24 6 keywordFormat]
   \<and> take 3 (drop 0 (fromLatin1 ''for(int i=0;i<10;i++) { return; }'')) = fromLatin1 ''for''
   \<and> take 3 (drop 4 (fromLatin1 ''for(int i=0;i<10;i++) { return; }'')) = fromLatin1 ''int''
   \<and> take 6 (drop 24 (fromLatin1 ''for(int i=0;i<10;i++) { return; }'')) = fromLatin1 ''return''
   \<and> span_disjoint (Span 0 3 loopFormat) (Span 4 3 dataTypeFormat)
   \<and> span_disjoint (Span 0 3 loopFormat) (Span 24 6 keywordFormat)
   \<and> span_disjoint (Span 4 3 dataTypeFormat) (Span 24 6 keywordFormat)"
  by (simp add: classify_for_loop span_disjoint_def) (simp add: fromLatin1_def)

text \<open>
  Claim C7. A call of \<^verbatim>\<open>highlightBlock\<close> never changes the rules, and the calls of
  \<^verbatim>\<open>setFormat\<close> it makes do not depend on the calls made before: on an object with any
  earlier calls it appends exactly the calls it makes on the same object without them.
  So in every run of calls on the constructed highlighter each block adds \<open>classify\<close> of
  its own text: two calls with the same text add the same spans, whatever was
  highlighted before or in between. In the run \<^verbatim>\<open>"int x"\<close>, \<^verbatim>\<open>"if int"\<close>, \<^verbatim>\<open>"int x"\<close> the
  first and the last call both add the one span of \<^verbatim>\<open>int\<close> at offset 0.
\<close>

theorem C7_stateless:
  "highlightingRules (highlightBlock this text) = highlightingRules this
   \<and> formatCalls (highlightBlock this text) =
       formatCalls this @ formatCalls (highlightBlock (this\<lparr>formatCalls := []\<rparr>) text)
   \<and> highlightBlocks new_SyntaxHighlighter (before @ [text] @ between @ [text]) =
       new_SyntaxHighlighter\<lparr>formatCalls :=
         concat (map classify before) @ classify text
         @ concat (map classify between) @ classify text\<rparr>
   \<and> formatCalls (highlightBlocks new_SyntaxHighlighter
         [fromLatin1 ''int x'', fromLatin1 ''if int'', fromLatin1 ''int x'']) =
       [Span 0 3 dataTypeFormat, Span 3 3 dataTypeFormat, Span 0 2 keywordFormat,
        Span 0 3 dataTypeFormat]"
  by (simp add: highlightBlock_ref highlightBlocks_run formatCalls_new classify_int_x
      classify_if_int)




text \<open>
  Claim C9. No two spans that \<open>classify\<close> emits for a text overlap: of any two of them, one
  ends at or before the start of the other.
\<close>

theorem C9_spans_disjoint:
  "\<forall>i j. i < j \<and> j < length (classify text)
     \<longrightarrow> span_disjoint (classify text ! i) (classify text ! j)"
  using classify_disjoint [of "text"] by (simp add: sorted_wrt_iff_nth_less)

text \<open>The two spans of \<^verbatim>\<open>"if int"\<close>.\<close>

theorem C9_spans_disjoint_witness:
  "length (classify (fromLatin1 ''if int'')) = 2
   \<and> span_disjoint (Span 3 3 dataTypeFormat) (Span 0 2 keywordFormat)"
proof -
  have "(0::nat) < 1 \<and> 1 < length (classify (fromLatin1 ''if int''))"
    by (simp add: classify_if_int)
  from C9_spans_disjoint [rule_format, OF this] show ?thesis
    by (simp add: classify_if_int)
qed

text \<open>
  Claim C10. Every span emitted for a text starts at an offset that is not negative, ends
  inside the text, is at least 2 long, and covers exactly one of the configured keywords,
  whose format it carries.
\<close>

theorem C10_span_well_formed:
  "\<forall>sp\<in>set (classify text).
     0 \<le> span_start sp \<and> span_start sp + span_length sp \<le> int (length text)
     \<and> 2 \<le> span_length sp
     \<and> (\<exists>k\<in>set keywordTable. span_category sp = snd k
           \<and> take (nat (span_length sp)) (drop (nat (span_start sp)) text) = fst k)"
proof
  fix sp assume "sp \<in> set (classify text)"
  from classify_mem [OF this] obtain k p where k: "k \<in> set keywordTable"
    and o: "whole_word_at (fst k) text p" and sp: "sp = Span (int p) (int (length (fst k))) (snd k)"
    by blast
  from k length_keywords have "2 \<le> length (fst k)" by (simp add: list_all_iff)
  moreover from o have "p + length (fst k) \<le> length text" "take (length (fst k)) (drop p text) = fst k"
    by (simp_all add: whole_word_at_def)
  ultimately show "0 \<le> span_start sp \<and> span_start sp + span_length sp \<le> int (length text)
     \<and> 2 \<le> span_length sp
     \<and> (\<exists>k\<in>set keywordTable. span_category sp = snd k
           \<and> take (nat (span_length sp)) (drop (nat (span_start sp)) text) = fst k)"
    using k by (auto simp: sp intro!: bexI [of _ k])
qed

text \<open>The span of \<^verbatim>\<open>"int x"\<close>.\<close>

theorem C10_span_well_formed_witness:
  "Span 0 3 dataTypeFormat \<in> set (classify (fromLatin1 ''int x''))
   \<and> (0::int) + 3 \<le> int (length (fromLatin1 ''int x''))
   \<and> (\<exists>k\<in>set keywordTable. dataTypeFormat = snd k \<and> take 3 (fromLatin1 ''int x'') = fst k)"
proof -
  have "Span 0 3 dataTypeFormat \<in> set (classify (fromLatin1 ''int x''))"
    by (simp add: classify_int_x)
  from C10_span_well_formed [rule_format, OF this] this show ?thesis
    by simp
qed

end
